theory Spec2Isabelle
  imports Main "HOL-Library.AList" "HOL-Library.Sublist"
begin

section \<open>The transaction tracker of \<^verbatim>\<open>src/solutions/emidesejas.ts\<close>\<close>

text \<open>
  The tracker is a closure over three mutable variables (\<^verbatim>\<open>blocks\<close>,
  \<^verbatim>\<open>trackedTransactions\<close>, \<^verbatim>\<open>lastFinalizedBlock\<close>) and two collaborators
  (\<^verbatim>\<open>api\<close>, \<^verbatim>\<open>outputApi\<close>). The model passes the three variables as a record and
  returns, for every event, the new record together with the list of calls made to the
  collaborators, in the order in which the handler makes them.

  Block hashes and transactions are JavaScript strings. A JavaScript \<^verbatim>\<open>Map\<close> iterates in
  insertion order, \<^verbatim>\<open>set\<close> on a key that is present replaces the value and keeps the position
  of the entry, and \<^verbatim>\<open>set\<close> on a new key appends: this is \<^const>\<open>AList.update\<close> on an
  association list; \<^verbatim>\<open>delete\<close> is \<^const>\<open>AList.delete\<close> and \<^verbatim>\<open>get\<close> is
  \<^const>\<open>map_of\<close>. A JavaScript \<^verbatim>\<open>Set\<close> that is only asked for membership is a HOL set.
\<close>

subsection \<open>Provider, sink and events\<close>

text \<open>
  The declarations of \<^verbatim>\<open>../types\<close> are not part of the sources; the provider is taken as a
  parameter. Its three queries are functions of their arguments (the tracker has no other
  way to influence them); \<^verbatim>\<open>unpin\<close> only has an effect, which the call log records.
\<close>

record api =
  getBody :: "string \<Rightarrow> string list"
  isTxValid :: "string \<Rightarrow> string \<Rightarrow> bool"
  isTxSuccessful :: "string \<Rightarrow> string \<Rightarrow> bool"

text \<open>
  The second argument of \<^verbatim>\<open>onTxSettled\<close> and \<^verbatim>\<open>onTxDone\<close>:
  \<^verbatim>\<open>{blockHash, type: "valid", successful}\<close> or \<^verbatim>\<open>{blockHash, type: "invalid"}\<close>.
\<close>

datatype outcome = Valid string bool | Invalid string

text \<open>Every call the handlers make on \<^verbatim>\<open>api\<close> and on \<^verbatim>\<open>outputApi\<close>.\<close>

datatype call =
    GetBody string
  | IsTxValid string string
  | IsTxSuccessful string string
  | Unpin "string list"
  | OnTxSettled string outcome
  | OnTxDone string outcome

datatype event =
    NewBlock string string
  | NewTransaction string
  | Finalized string

type_synonym registry = "(string \<times> string set) list"

record state =
  blocks :: "(string \<times> string) list"
  trackedTransactions :: registry
  lastFinalizedBlock :: "string option"

definition init :: state where
  "init = \<lparr>blocks = [], trackedTransactions = [], lastFinalizedBlock = None\<rparr>"

subsection \<open>Iterating over the registry\<close>

text \<open>
  \<^verbatim>\<open>trackedTransactions.forEach((_value, tx) => ...)\<close> visits the keys in insertion order.
  The callbacks of this program change the map only at the key being visited (they delete
  it, or mutate its value), and the keys of a \<^verbatim>\<open>Map\<close> are unique, so the keys visited are
  the keys present when the iteration starts. The callback receives the key and the
  current registry, and returns the registry and the calls it made.
\<close>

fun forEach :: "(string \<Rightarrow> registry \<Rightarrow> registry \<times> call list) \<Rightarrow> string list \<Rightarrow> registry
    \<Rightarrow> registry \<times> call list" where
  "forEach f [] txs = (txs, [])"
| "forEach f (tx # rest) txs =
     (case f tx txs of (txs1, out1) \<Rightarrow>
        (case forEach f rest txs1 of (txs2, out2) \<Rightarrow> (txs2, out1 @ out2)))"

subsection \<open>\<^verbatim>\<open>onNewBlock\<close>\<close>

text \<open>
  The callback of lines 51 to 62. The argument of \<^verbatim>\<open>onTxSettled\<close> is evaluated before the
  call, so \<^verbatim>\<open>isTxSuccessful\<close> is logged first. \<^verbatim>\<open>trackedTransactions.get(tx)?.invalidInBlock.add\<close>
  does nothing when the key is absent.
\<close>

definition onNewBlock_tx :: "api \<Rightarrow> string \<Rightarrow> string set \<Rightarrow> string \<Rightarrow> registry
    \<Rightarrow> registry \<times> call list" where
  "onNewBlock_tx a blockHash body tx txs =
     (if tx \<in> body then
        (txs, [IsTxSuccessful blockHash tx,
               OnTxSettled tx (Valid blockHash (isTxSuccessful a blockHash tx))])
      else if \<not> isTxValid a blockHash tx then
        (case map_of txs tx of
           None \<Rightarrow> txs
         | Some ivs \<Rightarrow> AList.update tx (insert blockHash ivs) txs,
         [IsTxValid blockHash tx, OnTxSettled tx (Invalid blockHash)])
      else (txs, [IsTxValid blockHash tx]))"

definition onNewBlock :: "api \<Rightarrow> state \<Rightarrow> string \<Rightarrow> string \<Rightarrow> state \<times> call list" where
  "onNewBlock a s blockHash parent =
     (let blocks1 = AList.update blockHash parent (blocks s);
          body = set (getBody a blockHash)
      in case forEach (onNewBlock_tx a blockHash body)
                (map fst (trackedTransactions s)) (trackedTransactions s) of
           (txs1, out) \<Rightarrow>
             (s\<lparr>blocks := blocks1, trackedTransactions := txs1\<rparr>, GetBody blockHash # out))"

subsection \<open>\<^verbatim>\<open>onNewTx\<close>\<close>

definition onNewTx :: "state \<Rightarrow> string \<Rightarrow> state" where
  "onNewTx s transaction =
     s\<lparr>trackedTransactions := AList.update transaction {} (trackedTransactions s)\<rparr>"

subsection \<open>\<^verbatim>\<open>onFinalized\<close>\<close>

text \<open>
  The callback of lines 80 to 92; \<^verbatim>\<open>blockHash\<close> is the hash carried by the event,
  \<^verbatim>\<open>currentBlock\<close> the block the walk is visiting.
\<close>

definition onFinalized_tx :: "api \<Rightarrow> string \<Rightarrow> string \<Rightarrow> string set \<Rightarrow> string \<Rightarrow> registry
    \<Rightarrow> registry \<times> call list" where
  "onFinalized_tx a blockHash currentBlock body tx txs =
     (if tx \<in> body then
        (AList.delete tx txs,
         [IsTxSuccessful currentBlock tx,
          OnTxDone tx (Valid currentBlock (isTxSuccessful a currentBlock tx))])
      else if (case map_of txs tx of None \<Rightarrow> False | Some ivs \<Rightarrow> blockHash \<in> ivs) then
        (txs, [OnTxDone tx (Invalid currentBlock)])
      else (txs, []))"

text \<open>Lines 78 to 92: the body of one iteration up to the end of the \<^verbatim>\<open>forEach\<close>.\<close>

definition finalize_block :: "api \<Rightarrow> string \<Rightarrow> string \<Rightarrow> registry \<Rightarrow> registry \<times> call list" where
  "finalize_block a blockHash currentBlock txs =
     (case forEach (onFinalized_tx a blockHash currentBlock (set (getBody a currentBlock)))
             (map fst txs) txs of
        (txs1, out) \<Rightarrow> (txs1, GetBody currentBlock # out))"

text \<open>
  The \<^verbatim>\<open>do ... while\<close> loop of lines 77 to 109. \<^verbatim>\<open>lfb\<close> is the value of
  \<^verbatim>\<open>lastFinalizedBlock\<close> during the loop, which does not assign it. The result is the block
  index, the registry, the calls made and \<^verbatim>\<open>blocksToUnpin\<close>. \<^verbatim>\<open>!blockData\<close> holds exactly
  when the block is not in the index; \<^verbatim>\<open>!currentBlock\<close> holds for the empty string, the one
  falsy string. Every iteration that goes on has deleted an entry of the index, which is
  why the loop ends.
\<close>

function onFinalized_loop :: "api \<Rightarrow> string \<Rightarrow> string option \<Rightarrow> string
    \<Rightarrow> (string \<times> string) list \<Rightarrow> registry
    \<Rightarrow> (string \<times> string) list \<times> registry \<times> call list \<times> string list" where
  "onFinalized_loop a blockHash lfb currentBlock bs txs =
     (case finalize_block a blockHash currentBlock txs of
        (txs1, out) \<Rightarrow>
          (case map_of bs currentBlock of
             None \<Rightarrow> (bs, txs1, out, [currentBlock])
           | Some parent \<Rightarrow>
               if parent = [] then (AList.delete currentBlock bs, txs1, out, [currentBlock])
               else if Some parent \<noteq> lfb then
                 (case onFinalized_loop a blockHash lfb parent
                         (AList.delete currentBlock bs) txs1 of
                    (bs2, txs2, out2, unpin2) \<Rightarrow>
                      (bs2, txs2, out @ out2, currentBlock # unpin2))
               else (AList.delete currentBlock bs, txs1, out, [currentBlock])))"
  by pat_completeness auto
termination
proof (relation "measure (\<lambda>(a, blockHash, lfb, currentBlock, bs, txs). length bs)")
  show "wf (measure (\<lambda>(a, blockHash, lfb, currentBlock, bs, txs). length bs))"
    by simp
next
  fix a :: api and blockHash :: string and lfb :: "string option" and currentBlock :: string
    and bs :: "(string \<times> string) list" and txs :: registry and parent :: string
  assume "map_of bs currentBlock = Some parent"
  then have "(currentBlock, parent) \<in> set bs"
    by (rule map_of_SomeD)
  then have "length (filter (\<lambda>p. currentBlock \<noteq> fst p) bs) < length bs"
    by (intro length_filter_less) auto
  then show "((a, blockHash, lfb, parent, AList.delete currentBlock bs, txs1),
              (a, blockHash, lfb, currentBlock, bs, txs))
             \<in> measure (\<lambda>(a, blockHash, lfb, currentBlock, bs, txs). length bs)" for txs1
    by (simp add: AList.delete_eq case_prod_unfold)
qed

declare onFinalized_loop.simps [simp del]

text \<open>
  Lines 70 to 72: a cursor that is still \<^verbatim>\<open>null\<close> is set to the hash of the event before the
  loop starts; this is the value the loop compares with.
\<close>

definition cursor :: "state \<Rightarrow> string \<Rightarrow> string option" where
  "cursor s blockHash =
     (case lastFinalizedBlock s of None \<Rightarrow> Some blockHash | Some l \<Rightarrow> Some l)"

definition onFinalized :: "api \<Rightarrow> state \<Rightarrow> string \<Rightarrow> state \<times> call list" where
  "onFinalized a s blockHash =
     (case onFinalized_loop a blockHash (cursor s blockHash) blockHash
             (blocks s) (trackedTransactions s) of
        (bs1, txs1, out, blocksToUnpin) \<Rightarrow>
          (\<lparr>blocks = bs1, trackedTransactions = txs1, lastFinalizedBlock = Some blockHash\<rparr>,
           out @ [Unpin blocksToUnpin]))"

subsection \<open>The event handler\<close>

fun emidesejas :: "api \<Rightarrow> state \<Rightarrow> event \<Rightarrow> state \<times> call list" where
  "emidesejas a s (NewBlock blockHash parent) = onNewBlock a s blockHash parent"
| "emidesejas a s (NewTransaction v) = (onNewTx s v, [])"
| "emidesejas a s (Finalized blockHash) = onFinalized a s blockHash"

text \<open>The handler applied to a sequence of events, with all the calls made.\<close>

fun run :: "api \<Rightarrow> state \<Rightarrow> event list \<Rightarrow> state \<times> call list" where
  "run a s [] = (s, [])"
| "run a s (e # es) =
     (case emidesejas a s e of (s1, out1) \<Rightarrow>
        (case run a s1 es of (s2, out2) \<Rightarrow> (s2, out1 @ out2)))"

subsection \<open>Observations on the call log\<close>

text \<open>The transaction a call is about, if it is about one.\<close>

fun call_tx :: "call \<Rightarrow> string option" where
  "call_tx (GetBody b) = None"
| "call_tx (IsTxValid b t) = Some t"
| "call_tx (IsTxSuccessful b t) = Some t"
| "call_tx (Unpin l) = None"
| "call_tx (OnTxSettled t res) = Some t"
| "call_tx (OnTxDone t res) = Some t"

definition calls_for :: "string \<Rightarrow> call list \<Rightarrow> call list" where
  "calls_for tx out = filter (\<lambda>c. call_tx c = Some tx) out"

text \<open>The outcomes of the \<^verbatim>\<open>onTxSettled\<close> calls, and of the \<^verbatim>\<open>onTxDone\<close> calls, for a transaction.\<close>

fun settles :: "string \<Rightarrow> call list \<Rightarrow> outcome list" where
  "settles tx [] = []"
| "settles tx (OnTxSettled t res # cs) = (if t = tx then res # settles tx cs else settles tx cs)"
| "settles tx (c # cs) = settles tx cs"

fun dones :: "string \<Rightarrow> call list \<Rightarrow> outcome list" where
  "dones tx [] = []"
| "dones tx (OnTxDone t res # cs) = (if t = tx then res # dones tx cs else dones tx cs)"
| "dones tx (c # cs) = dones tx cs"

text \<open>The transactions of the calls made on the sink, in the order of the calls.\<close>

fun sink_txs :: "call list \<Rightarrow> string list" where
  "sink_txs [] = []"
| "sink_txs (OnTxSettled t res # cs) = t # sink_txs cs"
| "sink_txs (OnTxDone t res # cs) = t # sink_txs cs"
| "sink_txs (c # cs) = sink_txs cs"

text \<open>
  The blocks whose body was fetched, in the order of the fetches (a finalization fetches the
  body of a block when it visits it), and the arguments of the \<^verbatim>\<open>unpin\<close> calls.
\<close>

fun visited :: "call list \<Rightarrow> string list" where
  "visited [] = []"
| "visited (GetBody b # cs) = b # visited cs"
| "visited (c # cs) = visited cs"

fun unpinned :: "call list \<Rightarrow> string list list" where
  "unpinned [] = []"
| "unpinned (Unpin l # cs) = l # unpinned cs"
| "unpinned (c # cs) = unpinned cs"

text \<open>
  A list of blocks in child-to-parent order: in the index \<open>bs\<close>, every block of the list has
  the next one as its parent.
\<close>

fun parent_chain :: "(string \<times> string) list \<Rightarrow> string list \<Rightarrow> bool" where
  "parent_chain bs (x # y # ys) = (map_of bs x = Some y \<and> parent_chain bs (y # ys))"
| "parent_chain bs [x] = True"
| "parent_chain bs [] = True"

text \<open>
  Where a walk over the index \<open>bs\<close> with cursor \<open>lfb\<close> may end: at a block that is not in
  the index, or whose parent is the empty string or the cursor, or that the same walk has
  visited (and so deleted from the index) before.
\<close>

definition walk_ends :: "(string \<times> string) list \<Rightarrow> string option \<Rightarrow> string list \<Rightarrow> bool" where
  "walk_ends bs lfb vs =
     (case map_of bs (last vs) of
        None \<Rightarrow> True
      | Some p \<Rightarrow> p = [] \<or> Some p = lfb \<or> last vs \<in> set (butlast vs))"

text \<open>The components of the result of the loop.\<close>

abbreviation loop_blocks ::
    "(string \<times> string) list \<times> registry \<times> call list \<times> string list \<Rightarrow> (string \<times> string) list" where
  "loop_blocks r \<equiv> fst r"

abbreviation loop_txs ::
    "(string \<times> string) list \<times> registry \<times> call list \<times> string list \<Rightarrow> registry" where
  "loop_txs r \<equiv> fst (snd r)"

abbreviation loop_out ::
    "(string \<times> string) list \<times> registry \<times> call list \<times> string list \<Rightarrow> call list" where
  "loop_out r \<equiv> fst (snd (snd r))"

abbreviation loop_unpin ::
    "(string \<times> string) list \<times> registry \<times> call list \<times> string list \<Rightarrow> string list" where
  "loop_unpin r \<equiv> snd (snd (snd r))"

subsection \<open>Three providers\<close>

text \<open>
  No block has a body, and the transactions are invalid at \<open>B1\<close> and at its child \<open>B2\<close>.
\<close>

definition provider_invalid :: api where
  "provider_invalid =
     \<lparr>getBody = (\<lambda>b. []),
      isTxValid = (\<lambda>b t. b \<noteq> ''B1'' \<and> b \<noteq> ''B2''),
      isTxSuccessful = (\<lambda>b t. True)\<rparr>"

text \<open>
  \<open>B1\<close> includes \<open>t\<close>, which is then no longer valid at the child \<open>B2\<close> of \<open>B1\<close>.
\<close>

definition provider_included :: api where
  "provider_included =
     \<lparr>getBody = (\<lambda>b. if b = ''B1'' then [''t''] else []),
      isTxValid = (\<lambda>b t. b \<noteq> ''B2''),
      isTxSuccessful = (\<lambda>b t. True)\<rparr>"

text \<open>\<open>B1\<close> includes \<open>t1\<close> and its child \<open>B2\<close> includes \<open>t2\<close>.\<close>

definition provider_two_blocks :: api where
  "provider_two_blocks =
     \<lparr>getBody = (\<lambda>b. if b = ''B1'' then [''t1''] else if b = ''B2'' then [''t2''] else []),
      isTxValid = (\<lambda>b t. True),
      isTxSuccessful = (\<lambda>b t. True)\<rparr>"

text \<open>No block has a body, and the transactions are invalid at \<open>B1\<close> only.\<close>

definition provider_invalid_B1 :: api where
  "provider_invalid_B1 =
     \<lparr>getBody = (\<lambda>b. []),
      isTxValid = (\<lambda>b t. b \<noteq> ''B1''),
      isTxSuccessful = (\<lambda>b t. True)\<rparr>"

text \<open>No block has a body, and the transactions are invalid at \<open>B2\<close> only.\<close>

definition provider_invalid_B2 :: api where
  "provider_invalid_B2 =
     \<lparr>getBody = (\<lambda>b. []),
      isTxValid = (\<lambda>b t. b \<noteq> ''B2''),
      isTxSuccessful = (\<lambda>b t. True)\<rparr>"

subsection \<open>Sample states\<close>

text \<open>
  The cursor is \<open>B0\<close> and \<open>t\<close> is registered; then \<open>B1\<close>, then its child \<open>B2\<close> arrive,
  with \<open>t\<close> invalid at both.
\<close>

definition registered_t :: state where
  "registered_t = fst (run provider_invalid init [Finalized ''B0'', NewTransaction ''t''])"

definition invalid_at_B1 :: state where
  "invalid_at_B1 = fst (run provider_invalid registered_t [NewBlock ''B1'' ''B0''])"

definition invalid_at_B2 :: state where
  "invalid_at_B2 = fst (run provider_invalid invalid_at_B1 [NewBlock ''B2'' ''B1''])"

text \<open>The cursor is \<open>B0\<close> and the index holds the chain \<open>B1\<close>, \<open>B2\<close>, \<open>B3\<close> above it.\<close>

definition chain_of_three :: state where
  "chain_of_three = fst (run provider_invalid init
     [Finalized ''B0'', NewBlock ''B1'' ''B0'', NewBlock ''B2'' ''B1'', NewBlock ''B3'' ''B2''])"

text \<open>\<open>t1\<close> and \<open>t2\<close> are registered in this order and both invalid at \<open>B1\<close>.\<close>

definition two_invalid :: state where
  "two_invalid = fst (run provider_invalid init
     [NewTransaction ''t1'', NewTransaction ''t2'', NewBlock ''B1'' ''B0''])"

text \<open>
  The cursor is \<open>B0\<close>, the index holds \<open>B1\<close> and its child \<open>B2\<close>, and \<open>t\<close> has
  settled as invalid at \<open>B1\<close> only, or at \<open>B2\<close> only.
\<close>

definition invalid_only_at_B1 :: state where
  "invalid_only_at_B1 = fst (run provider_invalid_B1 init
     [Finalized ''B0'', NewTransaction ''t'', NewBlock ''B1'' ''B0'', NewBlock ''B2'' ''B1''])"

definition invalid_only_at_B2 :: state where
  "invalid_only_at_B2 = fst (run provider_invalid_B2 init
     [Finalized ''B0'', NewTransaction ''t'', NewBlock ''B1'' ''B0'', NewBlock ''B2'' ''B1''])"

text \<open>
  The cursor is \<open>B0\<close>; \<open>t1\<close> and \<open>t2\<close> are registered in this order, \<open>B1\<close> has settled
  \<open>t1\<close> and its child \<open>B2\<close> has settled \<open>t2\<close>.
\<close>

definition two_settled :: state where
  "two_settled = fst (run provider_two_blocks init
     [Finalized ''B0'', NewTransaction ''t1'', NewTransaction ''t2'',
      NewBlock ''B1'' ''B0'', NewBlock ''B2'' ''B1''])"

section \<open>Properties\<close>

subsection \<open>The iteration\<close>

lemma forEach_Cons:
  "forEach f (tx # rest) txs =
     (fst (forEach f rest (fst (f tx txs))),
      snd (f tx txs) @ snd (forEach f rest (fst (f tx txs))))"
  by (simp add: case_prod_unfold)

declare forEach.simps(2) [simp del]

lemma calls_for_concat:
  assumes "distinct ks" and "\<And>k c. c \<in> set (f k) \<Longrightarrow> call_tx c = Some k"
  shows "calls_for tx (concat (map f ks)) = (if tx \<in> set ks then f tx else [])"
  using assms(1)
proof (induction ks)
  case Nil
  show ?case by (simp add: calls_for_def)
next
  case (Cons k ks)
  have own: "filter (\<lambda>c. call_tx c = Some tx) (f k) = (if k = tx then f k else [])"
    using assms(2) [of _ k] by (auto simp: filter_empty_conv filter_id_conv)
  from Cons show ?case
    by (auto simp: calls_for_def own)
qed

lemma visited_append: "visited (xs @ ys) = visited xs @ visited ys"
  by (induction xs rule: visited.induct) simp_all

lemma visited_no_GetBody: "(\<And>b. GetBody b \<notin> set cs) \<Longrightarrow> visited cs = []"
  by (induction cs rule: visited.induct) auto

lemma unpinned_append: "unpinned (xs @ ys) = unpinned xs @ unpinned ys"
  by (induction xs rule: unpinned.induct) simp_all

lemma unpinned_no_Unpin: "(\<And>l. Unpin l \<notin> set cs) \<Longrightarrow> unpinned cs = []"
  by (induction cs rule: unpinned.induct) auto

subsection \<open>A new block\<close>

text \<open>The calls of the callback do not depend on the registry.\<close>

lemma onNewBlock_tx_snd:
  "snd (onNewBlock_tx a bh body tx txs) = snd (onNewBlock_tx a bh body tx [])"
  by (simp add: onNewBlock_tx_def)

lemma onNewBlock_tx_own:
  "c \<in> set (snd (onNewBlock_tx a bh body k txs)) \<Longrightarrow> call_tx c = Some k"
  by (auto simp: onNewBlock_tx_def split: if_splits)

lemma forEach_onNewBlock_snd:
  "snd (forEach (onNewBlock_tx a bh body) ks txs) =
     concat (map (\<lambda>tx. snd (onNewBlock_tx a bh body tx [])) ks)"
proof (induction ks arbitrary: txs)
  case Nil
  show ?case by simp
next
  case (Cons k ks)
  show ?case
    using Cons.IH onNewBlock_tx_snd [of a bh body k txs]
    by (simp add: forEach_Cons)
qed

lemma onNewBlock_tx_keys:
  "map fst (fst (onNewBlock_tx a bh body tx txs)) = map fst txs"
  by (auto simp: onNewBlock_tx_def update_keys split: option.splits dest: map_of_SomeD
      intro: rev_image_eqI)

lemma forEach_onNewBlock_keys:
  "map fst (fst (forEach (onNewBlock_tx a bh body) ks txs)) = map fst txs"
  by (induction ks arbitrary: txs) (simp_all add: forEach_Cons onNewBlock_tx_keys)

lemma onNewBlock_tx_map_of:
  "map_of (fst (onNewBlock_tx a bh body k txs)) tx =
     (if tx = k \<and> tx \<notin> body \<and> \<not> isTxValid a bh tx
      then map_option (insert bh) (map_of txs tx) else map_of txs tx)"
  by (auto simp: onNewBlock_tx_def update_conv' split: option.splits)

lemma forEach_onNewBlock_map_of:
  "map_of (fst (forEach (onNewBlock_tx a bh body) ks txs)) tx =
     (if tx \<in> set ks \<and> tx \<notin> body \<and> \<not> isTxValid a bh tx
      then map_option (insert bh) (map_of txs tx) else map_of txs tx)"
proof (induction ks arbitrary: txs)
  case Nil
  show ?case by simp
next
  case (Cons k ks)
  show ?case
    by (cases "map_of txs tx")
      (auto simp: forEach_Cons Cons.IH onNewBlock_tx_map_of)
qed

lemma onNewBlock_eq:
  "onNewBlock a s bh p =
     (s\<lparr>blocks := AList.update bh p (blocks s),
        trackedTransactions :=
          fst (forEach (onNewBlock_tx a bh (set (getBody a bh)))
                 (map fst (trackedTransactions s)) (trackedTransactions s))\<rparr>,
      GetBody bh # snd (forEach (onNewBlock_tx a bh (set (getBody a bh)))
                          (map fst (trackedTransactions s)) (trackedTransactions s)))"
  by (simp add: onNewBlock_def Let_def case_prod_unfold)

text \<open>A settlement as invalid leaves the block in the recorded set of the transaction.\<close>

lemma settled_invalid_recorded:
  assumes "OnTxSettled tx (Invalid B) \<in> set (snd (onNewBlock a s B p))"
  shows "tx \<notin> set (getBody a B) \<and> \<not> isTxValid a B tx \<and>
         (\<exists>ivs. map_of (trackedTransactions (fst (onNewBlock a s B p))) tx = Some ivs \<and> B \<in> ivs)"
proof -
  from assms obtain k where k: "k \<in> fst ` set (trackedTransactions s)"
    and c: "OnTxSettled tx (Invalid B) \<in> set (snd (onNewBlock_tx a B (set (getBody a B)) k []))"
    by (auto simp: onNewBlock_eq forEach_onNewBlock_snd)
  from c have "k = tx" and nb: "tx \<notin> set (getBody a B)" and nv: "\<not> isTxValid a B tx"
    by (auto simp: onNewBlock_tx_def split: if_splits)
  with k obtain ivs where "map_of (trackedTransactions s) tx = Some ivs"
    by (metis domD dom_map_of_conv_image_fst)
  with k \<open>k = tx\<close> nb nv show ?thesis
    by (simp add: onNewBlock_eq forEach_onNewBlock_map_of)
qed

subsection \<open>One block of a finalization\<close>

lemma onFinalized_tx_fst:
  "fst (onFinalized_tx a bh cur body tx txs) = (if tx \<in> body then AList.delete tx txs else txs)"
  by (simp add: onFinalized_tx_def)

text \<open>
  A callback deletes only a transaction of the body, and what it calls for a transaction
  outside the body depends on the entry of that transaction alone.
\<close>

lemma onFinalized_tx_snd:
  "snd (onFinalized_tx a bh cur body tx (fst (onFinalized_tx a bh cur body k txs))) =
   snd (onFinalized_tx a bh cur body tx txs)"
  by (auto simp: onFinalized_tx_def delete_conv')

lemma onFinalized_tx_set:
  "c \<in> set (snd (onFinalized_tx a bh cur body tx txs)) \<Longrightarrow>
     c = IsTxSuccessful cur tx \<and> tx \<in> body \<or>
     c = OnTxDone tx (Valid cur (isTxSuccessful a cur tx)) \<and> tx \<in> body \<or>
     c = OnTxDone tx (Invalid cur) \<and> tx \<notin> body"
  by (auto simp: onFinalized_tx_def split: if_splits)

lemma forEach_onFinalized:
  "forEach (onFinalized_tx a bh cur body) ks txs =
     (filter (\<lambda>p. fst p \<in> set ks \<longrightarrow> fst p \<notin> body) txs,
      concat (map (\<lambda>tx. snd (onFinalized_tx a bh cur body tx txs)) ks))"
proof (induction ks arbitrary: txs)
  case Nil
  show ?case by simp
next
  case (Cons k ks)
  have reg: "filter (\<lambda>p. fst p \<in> set ks \<longrightarrow> fst p \<notin> body)
               (fst (onFinalized_tx a bh cur body k txs)) =
             filter (\<lambda>p. fst p \<in> set (k # ks) \<longrightarrow> fst p \<notin> body) txs"
    by (auto simp: onFinalized_tx_fst AList.delete_eq case_prod_unfold intro: filter_cong)
  show ?case
    unfolding forEach_Cons Cons.IH reg
    by (simp add: onFinalized_tx_snd)
qed

lemma finalize_block_fst:
  "fst (finalize_block a bh cur txs) = filter (\<lambda>p. fst p \<notin> set (getBody a cur)) txs"
  by (auto simp: finalize_block_def forEach_onFinalized intro: filter_cong)

lemma finalize_block_snd:
  "snd (finalize_block a bh cur txs) =
     GetBody cur # concat (map (\<lambda>tx. snd (onFinalized_tx a bh cur (set (getBody a cur)) tx txs))
                                 (map fst txs))"
  by (simp add: finalize_block_def forEach_onFinalized)

lemma finalize_block_set:
  "c \<in> set (snd (finalize_block a bh cur txs)) \<Longrightarrow>
     c = GetBody cur \<or>
     (\<exists>tx. c = IsTxSuccessful cur tx \<and> tx \<in> set (getBody a cur)) \<or>
     (\<exists>tx res. c = OnTxDone tx res)"
  by (auto simp: finalize_block_snd dest!: onFinalized_tx_set)

lemma visited_finalize_block: "visited (snd (finalize_block a bh cur txs)) = [cur]"
proof -
  have "visited (concat (map (\<lambda>tx. snd (onFinalized_tx a bh cur (set (getBody a cur)) tx txs))
                  (map fst txs))) = []"
    by (rule visited_no_GetBody) (auto dest!: onFinalized_tx_set)
  then show ?thesis
    by (simp add: finalize_block_snd)
qed

lemma finalize_block_invalid_done:
  assumes "map_of txs tx = Some ivs" and "tx \<notin> set (getBody a cur)" and "bh \<in> ivs"
  shows "OnTxDone tx (Invalid cur) \<in> set (snd (finalize_block a bh cur txs))"
proof -
  have "tx \<in> fst ` set txs"
    using assms(1) by (auto dest: map_of_SomeD intro: rev_image_eqI)
  moreover have "OnTxDone tx (Invalid cur)
      \<in> set (snd (onFinalized_tx a bh cur (set (getBody a cur)) tx txs))"
    using assms by (simp add: onFinalized_tx_def)
  ultimately show ?thesis
    by (auto simp: finalize_block_snd)
qed

subsection \<open>The walk\<close>

lemma onFinalized_loop_unfold:
  "onFinalized_loop a bh lfb cur bs txs =
     (case map_of bs cur of
        None \<Rightarrow> (bs, fst (finalize_block a bh cur txs), snd (finalize_block a bh cur txs), [cur])
      | Some parent \<Rightarrow>
          if parent = [] \<or> Some parent = lfb
          then (AList.delete cur bs, fst (finalize_block a bh cur txs),
                snd (finalize_block a bh cur txs), [cur])
          else (loop_blocks (onFinalized_loop a bh lfb parent (AList.delete cur bs)
                               (fst (finalize_block a bh cur txs))),
                loop_txs (onFinalized_loop a bh lfb parent (AList.delete cur bs)
                               (fst (finalize_block a bh cur txs))),
                snd (finalize_block a bh cur txs) @
                loop_out (onFinalized_loop a bh lfb parent (AList.delete cur bs)
                               (fst (finalize_block a bh cur txs))),
                cur # loop_unpin (onFinalized_loop a bh lfb parent (AList.delete cur bs)
                               (fst (finalize_block a bh cur txs)))))"
  by (subst onFinalized_loop.simps) (simp add: case_prod_unfold split: option.splits)

lemma length_delete_less:
  "map_of bs k = Some v \<Longrightarrow> length (AList.delete k bs) < length bs"
proof -
  assume "map_of bs k = Some v"
  then have "(k, v) \<in> set bs"
    by (rule map_of_SomeD)
  then have "length (filter (\<lambda>p. k \<noteq> fst p) bs) < length bs"
    by (intro length_filter_less) auto
  then show ?thesis
    by (simp add: AList.delete_eq case_prod_unfold)
qed

text \<open>Induction along the walk, for a fixed provider, event and cursor.\<close>

lemma loop_induct [case_names step]:
  assumes "\<And>cur bs txs.
     (\<And>parent. map_of bs cur = Some parent \<Longrightarrow> parent \<noteq> [] \<Longrightarrow> Some parent \<noteq> lfb \<Longrightarrow>
        P parent (AList.delete cur bs) (fst (finalize_block a bh cur txs))) \<Longrightarrow> P cur bs txs"
  shows "P cur bs txs"
proof (induction "length bs" arbitrary: cur bs txs rule: less_induct)
  case less
  show ?case
    by (rule assms) (simp add: less length_delete_less)
qed

lemma loop_unpin_hd:
  "loop_unpin (onFinalized_loop a bh lfb cur bs txs) \<noteq> [] \<and>
   hd (loop_unpin (onFinalized_loop a bh lfb cur bs txs)) = cur"
  by (subst (1 2) onFinalized_loop_unfold) (simp split: option.splits)

lemma loop_out_first:
  "c \<in> set (snd (finalize_block a bh cur txs)) \<Longrightarrow>
   c \<in> set (loop_out (onFinalized_loop a bh lfb cur bs txs))"
  by (subst onFinalized_loop_unfold) (simp split: option.splits)

lemma loop_visited:
  "visited (loop_out (onFinalized_loop a bh lfb cur bs txs)) =
   loop_unpin (onFinalized_loop a bh lfb cur bs txs)"
proof (induction cur bs txs rule: loop_induct [where a = a and bh = bh and lfb = lfb])
  case (step cur bs txs)
  show ?case
    by (subst (1 2) onFinalized_loop_unfold)
      (simp add: step visited_append visited_finalize_block split: option.splits)
qed

lemma parent_chain_delete:
  "parent_chain (AList.delete k bs) vs \<Longrightarrow> parent_chain bs vs"
  by (induction bs vs rule: parent_chain.induct)
    (auto simp: delete_conv' split: if_splits)

lemma parent_chain_Cons:
  "vs \<noteq> [] \<Longrightarrow> parent_chain bs (x # vs) = (map_of bs x = Some (hd vs) \<and> parent_chain bs vs)"
  by (cases vs) simp_all

lemma loop_parent_chain:
  "parent_chain bs (loop_unpin (onFinalized_loop a bh lfb cur bs txs))"
proof (induction cur bs txs rule: loop_induct [where a = a and bh = bh and lfb = lfb])
  case (step cur bs txs)
  show ?case
    by (subst onFinalized_loop_unfold)
      (auto simp: parent_chain_Cons loop_unpin_hd split: option.splits
        intro: parent_chain_delete step)
qed

lemma loop_excludes:
  "b \<in> set (tl (loop_unpin (onFinalized_loop a bh lfb cur bs txs))) \<Longrightarrow> b \<noteq> [] \<and> Some b \<noteq> lfb"
proof (induction cur bs txs rule: loop_induct [where a = a and bh = bh and lfb = lfb])
  case (step cur bs txs)
  from step.prems show ?case
  proof (subst (asm) onFinalized_loop_unfold, simp split: option.splits if_splits)
    fix parent
    let ?r = "onFinalized_loop a bh lfb parent (AList.delete cur bs)
                (fst (finalize_block a bh cur txs))"
    assume p: "map_of bs cur = Some parent" "parent \<noteq> [] \<and> Some parent \<noteq> lfb"
      and b: "b \<in> set (loop_unpin ?r)"
    from loop_unpin_hd [of a bh lfb parent "AList.delete cur bs" "fst (finalize_block a bh cur txs)"]
    have "loop_unpin ?r = parent # tl (loop_unpin ?r)"
      by (cases "loop_unpin ?r") auto
    with b have "b = parent \<or> b \<in> set (tl (loop_unpin ?r))"
      by (metis set_ConsD)
    then show "b \<noteq> [] \<and> Some b \<noteq> lfb"
      using p step.IH [of parent] by auto
  qed
qed

lemma loop_walk_ends:
  "walk_ends bs lfb (loop_unpin (onFinalized_loop a bh lfb cur bs txs))"
proof (induction cur bs txs rule: loop_induct [where a = a and bh = bh and lfb = lfb])
  case (step cur bs txs)
  show ?case
  proof (cases "map_of bs cur")
    case None
    then show ?thesis
      by (subst onFinalized_loop_unfold) (simp add: walk_ends_def)
  next
    case (Some parent)
    show ?thesis
    proof (cases "parent = [] \<or> Some parent = lfb")
      case True
      with Some show ?thesis
        by (subst onFinalized_loop_unfold) (auto simp: walk_ends_def)
    next
      case False
      let ?r = "onFinalized_loop a bh lfb parent (AList.delete cur bs)
                  (fst (finalize_block a bh cur txs))"
      have ne: "loop_unpin ?r \<noteq> []"
        using loop_unpin_hd by blast
      have eq: "loop_unpin (onFinalized_loop a bh lfb cur bs txs) = cur # loop_unpin ?r"
        using Some False by (subst onFinalized_loop_unfold) simp
      have IH: "walk_ends (AList.delete cur bs) lfb (loop_unpin ?r)"
        using step [of parent] Some False by simp
      show ?thesis
        unfolding eq using IH ne
        by (auto simp: walk_ends_def delete_conv' split: option.splits if_splits)
    qed
  qed
qed

lemma loop_out_set:
  "c \<in> set (loop_out (onFinalized_loop a bh lfb cur bs txs)) \<Longrightarrow>
     (\<exists>b. c = GetBody b) \<or>
     (\<exists>b tx. c = IsTxSuccessful b tx \<and> tx \<in> set (getBody a b)) \<or>
     (\<exists>tx res. c = OnTxDone tx res)"
proof (induction cur bs txs rule: loop_induct [where a = a and bh = bh and lfb = lfb])
  case (step cur bs txs)
  from step.prems show ?case
    by (subst (asm) onFinalized_loop_unfold)
      (auto split: option.splits if_splits dest!: finalize_block_set dest: step.IH)
qed

lemma loop_no_Unpin: "Unpin l \<notin> set (loop_out (onFinalized_loop a bh lfb cur bs txs))"
  by (auto dest: loop_out_set)

lemma loop_no_IsTxValid: "IsTxValid b t \<notin> set (loop_out (onFinalized_loop a bh lfb cur bs txs))"
  by (auto dest: loop_out_set)

text \<open>The registry after the walk: the transactions in the body of no visited block.\<close>

lemma loop_txs_filter:
  "loop_txs (onFinalized_loop a bh lfb cur bs txs) =
     filter (\<lambda>p. \<forall>b \<in> set (loop_unpin (onFinalized_loop a bh lfb cur bs txs)).
                    fst p \<notin> set (getBody a b)) txs"
proof (induction cur bs txs rule: loop_induct [where a = a and bh = bh and lfb = lfb])
  case (step cur bs txs)
  note IH = step [unfolded finalize_block_fst]
  show ?case
    by (subst (1 2) onFinalized_loop_unfold)
      (auto simp: IH finalize_block_fst split: option.splits intro: filter_cong)
qed

text \<open>The index after the walk: the blocks that were not visited.\<close>

lemma loop_blocks_filter:
  "loop_blocks (onFinalized_loop a bh lfb cur bs txs) =
     filter (\<lambda>p. fst p \<notin> set (loop_unpin (onFinalized_loop a bh lfb cur bs txs))) bs"
proof (induction cur bs txs rule: loop_induct [where a = a and bh = bh and lfb = lfb])
  case (step cur bs txs)
  show ?case
  proof (cases "map_of bs cur")
    case None
    then have "cur \<notin> fst ` set bs"
      by (simp add: map_of_eq_None_iff)
    then have "filter (\<lambda>p. fst p \<noteq> cur) bs = bs"
      by (auto simp: filter_id_conv)
    with None show ?thesis
      by (subst (1 2) onFinalized_loop_unfold) simp
  next
    case (Some parent)
    have del: "filter P (AList.delete cur bs) = filter (\<lambda>p. fst p \<noteq> cur \<and> P p) bs" for P
      by (auto simp: AList.delete_eq case_prod_unfold intro: filter_cong)
    show ?thesis
    proof (cases "parent = [] \<or> Some parent = lfb")
      case True
      with Some show ?thesis
        using del [of "\<lambda>p. True"]
        by (subst (1 2) onFinalized_loop_unfold) auto
    next
      case False
      let ?r = "onFinalized_loop a bh lfb parent (AList.delete cur bs)
                  (fst (finalize_block a bh cur txs))"
      have eq: "loop_blocks (onFinalized_loop a bh lfb cur bs txs) = loop_blocks ?r"
        "loop_unpin (onFinalized_loop a bh lfb cur bs txs) = cur # loop_unpin ?r"
        using Some False by (subst onFinalized_loop_unfold, simp)+
      have "loop_blocks ?r = filter (\<lambda>p. fst p \<notin> set (loop_unpin ?r)) (AList.delete cur bs)"
        using step [of parent] Some False by simp
      then show ?thesis
        unfolding eq del by simp
    qed
  qed
qed

subsection \<open>What the walk calls for one transaction\<close>

lemma map_of_filter_key:
  "map_of (filter (\<lambda>p. Q (fst p)) xs) k = (if Q k then map_of xs k else None)"
  by (induction xs) auto

lemma calls_for_append: "calls_for tx (xs @ ys) = calls_for tx xs @ calls_for tx ys"
  by (simp add: calls_for_def)

lemma onFinalized_tx_own:
  "c \<in> set (snd (onFinalized_tx a bh cur body k txs)) \<Longrightarrow> call_tx c = Some k"
  by (auto dest: onFinalized_tx_set)

lemma calls_for_finalize_block:
  assumes "distinct (map fst txs)"
  shows "calls_for tx (snd (finalize_block a bh cur txs)) =
           (if tx \<in> fst ` set txs
            then snd (onFinalized_tx a bh cur (set (getBody a cur)) tx txs) else [])"
proof -
  have "calls_for tx (snd (finalize_block a bh cur txs)) =
      calls_for tx (concat (map (\<lambda>k. snd (onFinalized_tx a bh cur (set (getBody a cur)) k txs))
                             (map fst txs)))"
    unfolding finalize_block_snd by (simp add: calls_for_def)
  also have "\<dots> = (if tx \<in> set (map fst txs)
      then snd (onFinalized_tx a bh cur (set (getBody a cur)) tx txs) else [])"
    by (rule calls_for_concat [OF assms]) (rule onFinalized_tx_own)
  finally show ?thesis by simp
qed

lemma finalize_block_call_tx:
  "c \<in> set (snd (finalize_block a bh cur txs)) \<Longrightarrow> call_tx c = Some t \<Longrightarrow> t \<in> fst ` set txs"
proof -
  assume c: "c \<in> set (snd (finalize_block a bh cur txs))" and t: "call_tx c = Some t"
  from c t obtain k where k: "k \<in> fst ` set txs"
    and "c \<in> set (snd (onFinalized_tx a bh cur (set (getBody a cur)) k txs))"
    by (auto simp: finalize_block_snd)
  from onFinalized_tx_own [OF this(2)] t k show ?thesis
    by simp
qed

lemma loop_stop:
  assumes "map_of bs cur = None \<or> map_of bs cur = Some [] \<or>
           (\<exists>p. map_of bs cur = Some p \<and> Some p = lfb)"
  shows "onFinalized_loop a bh lfb cur bs txs =
           (if map_of bs cur = None then bs else AList.delete cur bs,
            fst (finalize_block a bh cur txs), snd (finalize_block a bh cur txs), [cur])"
  using assms by (subst onFinalized_loop_unfold) auto

lemma loop_go:
  assumes "map_of bs cur = Some p" and "p \<noteq> []" and "Some p \<noteq> lfb"
  shows "loop_unpin (onFinalized_loop a bh lfb cur bs txs) =
           cur # loop_unpin (onFinalized_loop a bh lfb p (AList.delete cur bs)
                               (fst (finalize_block a bh cur txs)))"
    and "loop_out (onFinalized_loop a bh lfb cur bs txs) =
           snd (finalize_block a bh cur txs) @
           loop_out (onFinalized_loop a bh lfb p (AList.delete cur bs)
                       (fst (finalize_block a bh cur txs)))"
    and "loop_txs (onFinalized_loop a bh lfb cur bs txs) =
           loop_txs (onFinalized_loop a bh lfb p (AList.delete cur bs)
                       (fst (finalize_block a bh cur txs)))"
  using assms by (subst onFinalized_loop_unfold, simp)+

lemma loop_split:
  assumes "loop_unpin (onFinalized_loop a bh lfb cur bs txs) = x # rest" and "rest \<noteq> []"
  obtains p where "x = cur"
    and "loop_unpin (onFinalized_loop a bh lfb p (AList.delete cur bs)
                       (fst (finalize_block a bh cur txs))) = rest"
    and "loop_out (onFinalized_loop a bh lfb cur bs txs) =
           snd (finalize_block a bh cur txs) @
           loop_out (onFinalized_loop a bh lfb p (AList.delete cur bs)
                       (fst (finalize_block a bh cur txs)))"
    and "loop_txs (onFinalized_loop a bh lfb cur bs txs) =
           loop_txs (onFinalized_loop a bh lfb p (AList.delete cur bs)
                       (fst (finalize_block a bh cur txs)))"
proof (cases "map_of bs cur = None \<or> map_of bs cur = Some [] \<or>
           (\<exists>p. map_of bs cur = Some p \<and> Some p = lfb)")
  case True
  from loop_stop [OF True, of a bh txs] assms show ?thesis
    by simp
next
  case False
  then obtain p where p: "map_of bs cur = Some p" "p \<noteq> []" "Some p \<noteq> lfb"
    by (cases "map_of bs cur") auto
  from loop_go [OF p, of a bh txs] assms that [of p] show ?thesis
    by simp
qed

lemma loop_out_call_tx:
  "c \<in> set (loop_out (onFinalized_loop a bh lfb cur bs txs)) \<Longrightarrow> call_tx c = Some t \<Longrightarrow>
   t \<in> fst ` set txs"
proof (induction cur bs txs rule: loop_induct [where a = a and bh = bh and lfb = lfb])
  case (step cur bs txs)
  show ?case
  proof (cases "map_of bs cur = None \<or> map_of bs cur = Some [] \<or>
           (\<exists>p. map_of bs cur = Some p \<and> Some p = lfb)")
    case True
    from step.prems show ?thesis
      unfolding loop_stop [OF True] by (auto dest: finalize_block_call_tx)
  next
    case False
    then obtain p where p: "map_of bs cur = Some p" "p \<noteq> []" "Some p \<noteq> lfb"
      by (cases "map_of bs cur") auto
    from step.prems(1) [unfolded loop_go(2) [OF p]]
    show ?thesis
    proof (simp, elim disjE)
      assume "c \<in> set (snd (finalize_block a bh cur txs))"
      from this step.prems(2) show ?thesis
        by (rule finalize_block_call_tx)
    next
      assume "c \<in> set (loop_out (onFinalized_loop a bh lfb p (AList.delete cur bs)
                                   (fst (finalize_block a bh cur txs))))"
      from step.IH [OF p this step.prems(2)] show ?thesis
        by (auto simp: finalize_block_fst)
    qed
  qed
qed

lemma loop_calls_for_absent:
  "tx \<notin> fst ` set txs \<Longrightarrow> calls_for tx (loop_out (onFinalized_loop a bh lfb cur bs txs)) = []"
  by (auto simp: calls_for_def filter_empty_conv dest: loop_out_call_tx)

lemma loop_out_decomp:
  "\<exists>X. loop_out (onFinalized_loop a bh lfb cur bs txs) = snd (finalize_block a bh cur txs) @ X \<and>
       (\<forall>tx. tx \<notin> fst ` set (fst (finalize_block a bh cur txs)) \<longrightarrow> calls_for tx X = [])"
proof (cases "map_of bs cur = None \<or> map_of bs cur = Some [] \<or>
           (\<exists>p. map_of bs cur = Some p \<and> Some p = lfb)")
  case True
  show ?thesis
    unfolding loop_stop [OF True] by (simp add: calls_for_def)
next
  case False
  then obtain p where p: "map_of bs cur = Some p" "p \<noteq> []" "Some p \<noteq> lfb"
    by (cases "map_of bs cur") auto
  show ?thesis
    unfolding loop_go(2) [OF p] by (simp add: loop_calls_for_absent)
qed

text \<open>An invalid done call of the walk: the set of the transaction holds the event block.\<close>

lemma finalize_block_invalid_doneD:
  assumes "OnTxDone tx (Invalid x) \<in> set (snd (finalize_block a bh cur txs))"
  shows "\<exists>ivs. map_of txs tx = Some ivs \<and> bh \<in> ivs"
proof -
  from assms obtain k where
    "OnTxDone tx (Invalid x) \<in> set (snd (onFinalized_tx a bh cur (set (getBody a cur)) k txs))"
    by (auto simp: finalize_block_snd)
  then show ?thesis
    by (auto simp: onFinalized_tx_def split: if_splits option.splits)
qed

lemma loop_invalid_doneD:
  "OnTxDone tx (Invalid x) \<in> set (loop_out (onFinalized_loop a bh lfb cur bs txs)) \<Longrightarrow>
   \<exists>ivs. map_of txs tx = Some ivs \<and> bh \<in> ivs"
proof (induction cur bs txs rule: loop_induct [where a = a and bh = bh and lfb = lfb])
  case (step cur bs txs)
  show ?case
  proof (cases "map_of bs cur = None \<or> map_of bs cur = Some [] \<or>
           (\<exists>p. map_of bs cur = Some p \<and> Some p = lfb)")
    case True
    from step.prems show ?thesis
      unfolding loop_stop [OF True] by (auto dest: finalize_block_invalid_doneD)
  next
    case False
    then obtain p where p: "map_of bs cur = Some p" "p \<noteq> []" "Some p \<noteq> lfb"
      by (cases "map_of bs cur") auto
    from step.prems [unfolded loop_go(2) [OF p]]
    show ?thesis
    proof (simp, elim disjE)
      assume "OnTxDone tx (Invalid x) \<in> set (snd (finalize_block a bh cur txs))"
      then show ?thesis
        by (rule finalize_block_invalid_doneD)
    next
      assume "OnTxDone tx (Invalid x)
        \<in> set (loop_out (onFinalized_loop a bh lfb p (AList.delete cur bs)
                          (fst (finalize_block a bh cur txs))))"
      from step.IH [OF p this] show ?thesis
        by (auto simp: finalize_block_fst
            map_of_filter_key [of "\<lambda>k. k \<notin> set (getBody a cur)"] split: if_splits)
    qed
  qed
qed

lemma loop_invalid_done_at:
  assumes "map_of txs tx = Some ivs" and "bh \<in> ivs"
    and "loop_unpin (onFinalized_loop a bh lfb c bs txs) = pre @ cur # post"
    and "\<forall>b \<in> set pre. tx \<notin> set (getBody a b)" and "tx \<notin> set (getBody a cur)"
  shows "OnTxDone tx (Invalid cur) \<in> set (loop_out (onFinalized_loop a bh lfb c bs txs))"
  using assms
proof (induction pre arbitrary: c bs txs)
  case Nil
  from Nil.prems(3) loop_unpin_hd [of a bh lfb c bs txs] have "cur = c"
    by simp
  with Nil.prems show ?case
    by (auto intro: loop_out_first finalize_block_invalid_done)
next
  case (Cons x pre)
  from Cons.prems(3) have u: "loop_unpin (onFinalized_loop a bh lfb c bs txs) = x # (pre @ cur # post)"
    by simp
  from u obtain p where x: "x = c"
    and rest: "loop_unpin (onFinalized_loop a bh lfb p (AList.delete c bs)
                 (fst (finalize_block a bh c txs))) = pre @ cur # post"
    and out: "loop_out (onFinalized_loop a bh lfb c bs txs) =
                snd (finalize_block a bh c txs) @
                loop_out (onFinalized_loop a bh lfb p (AList.delete c bs)
                            (fst (finalize_block a bh c txs)))"
    by (rule loop_split) simp_all
  from Cons.prems(4) x have nb: "tx \<notin> set (getBody a c)"
    by simp
  with Cons.prems(1) have reg: "map_of (fst (finalize_block a bh c txs)) tx = Some ivs"
    by (simp add: finalize_block_fst map_of_filter_key [of "\<lambda>k. k \<notin> set (getBody a c)"])
  from Cons.IH [OF reg Cons.prems(2) rest] Cons.prems(4,5) show ?case
    unfolding out by simp
qed

lemma loop_calls_for_valid:
  assumes "distinct (map fst txs)" and "map_of txs tx = Some ivs"
    and "loop_unpin (onFinalized_loop a bh lfb c bs txs) = pre @ cur # post"
    and "\<forall>b \<in> set pre. tx \<notin> set (getBody a b)" and "tx \<in> set (getBody a cur)"
  shows "calls_for tx (loop_out (onFinalized_loop a bh lfb c bs txs)) =
           (if bh \<in> ivs then map (\<lambda>b. OnTxDone tx (Invalid b)) pre else []) @
           [IsTxSuccessful cur tx, OnTxDone tx (Valid cur (isTxSuccessful a cur tx))]"
  using assms
proof (induction pre arbitrary: c bs txs)
  case Nil
  from Nil.prems(3) loop_unpin_hd [of a bh lfb c bs txs] have c: "cur = c"
    by simp
  from Nil.prems(2) have mem: "tx \<in> fst ` set txs"
    by (auto dest: map_of_SomeD intro: rev_image_eqI)
  from loop_out_decomp [of a bh lfb c bs txs] obtain X where
    out: "loop_out (onFinalized_loop a bh lfb c bs txs) = snd (finalize_block a bh c txs) @ X"
    and X: "tx \<notin> fst ` set (fst (finalize_block a bh c txs)) \<Longrightarrow> calls_for tx X = []"
    by blast
  have "tx \<notin> fst ` set (fst (finalize_block a bh c txs))"
    using Nil.prems(5) c by (auto simp: finalize_block_fst)
  then have "calls_for tx X = []"
    by (rule X)
  then show ?case
    unfolding out calls_for_append calls_for_finalize_block [OF Nil.prems(1)]
    using mem Nil.prems(5) c by (simp add: onFinalized_tx_def)
next
  case (Cons x pre)
  from Cons.prems(3) have u: "loop_unpin (onFinalized_loop a bh lfb c bs txs) = x # (pre @ cur # post)"
    by simp
  from u obtain p where x: "x = c"
    and rest: "loop_unpin (onFinalized_loop a bh lfb p (AList.delete c bs)
                 (fst (finalize_block a bh c txs))) = pre @ cur # post"
    and out: "loop_out (onFinalized_loop a bh lfb c bs txs) =
                snd (finalize_block a bh c txs) @
                loop_out (onFinalized_loop a bh lfb p (AList.delete c bs)
                            (fst (finalize_block a bh c txs)))"
    by (rule loop_split) simp_all
  from Cons.prems(4) x have nb: "tx \<notin> set (getBody a c)"
    by simp
  from Cons.prems(2) have mem: "tx \<in> fst ` set txs"
    by (auto dest: map_of_SomeD intro: rev_image_eqI)
  from nb Cons.prems(2) have reg: "map_of (fst (finalize_block a bh c txs)) tx = Some ivs"
    by (simp add: finalize_block_fst map_of_filter_key [of "\<lambda>k. k \<notin> set (getBody a c)"])
  have dist: "distinct (map fst (fst (finalize_block a bh c txs)))"
    using Cons.prems(1) by (simp add: finalize_block_fst distinct_map_filter)
  have here: "calls_for tx (snd (finalize_block a bh c txs)) =
      (if bh \<in> ivs then [OnTxDone tx (Invalid c)] else [])"
    unfolding calls_for_finalize_block [OF Cons.prems(1)]
    using mem nb Cons.prems(2) by (simp add: onFinalized_tx_def)
  from Cons.IH [OF dist reg rest] Cons.prems(4,5) show ?case
    unfolding out calls_for_append here x by simp
qed

text \<open>
  The walk follows a chain of the index: from \<open>c\<close> through blocks that are linked by their
  parents, that are neither empty nor the cursor, and that are pairwise distinct.
\<close>

lemma parent_chain_delete_other:
  "c \<notin> set vs \<Longrightarrow> parent_chain bs vs \<Longrightarrow> parent_chain (AList.delete c bs) vs"
  by (induction bs vs rule: parent_chain.induct) (auto simp: delete_conv')

lemma loop_follows_chain:
  assumes "parent_chain bs (c # rest)" and "\<forall>b \<in> set rest. b \<noteq> [] \<and> Some b \<noteq> lfb"
    and "distinct (c # rest)"
  shows "\<exists>post. loop_unpin (onFinalized_loop a bh lfb c bs txs) = c # rest @ post"
  using assms
proof (induction rest arbitrary: c bs txs)
  case Nil
  from loop_unpin_hd [of a bh lfb c bs txs] show ?case
    by (cases "loop_unpin (onFinalized_loop a bh lfb c bs txs)") auto
next
  case (Cons y ys)
  from Cons.prems have p: "map_of bs c = Some y" "y \<noteq> []" "Some y \<noteq> lfb"
    by simp_all
  have "parent_chain (AList.delete c bs) (y # ys)"
    using Cons.prems by (intro parent_chain_delete_other) auto
  from Cons.IH [OF this] Cons.prems obtain post where
    "loop_unpin (onFinalized_loop a bh lfb y (AList.delete c bs)
       (fst (finalize_block a bh c txs))) = y # ys @ post"
    by auto
  then show ?case
    unfolding loop_go(1) [OF p] by simp
qed

subsection \<open>A finalized event\<close>

lemma onFinalized_eq:
  "onFinalized a s bh =
     (\<lparr>blocks = loop_blocks (onFinalized_loop a bh (cursor s bh) bh (blocks s)
                   (trackedTransactions s)),
       trackedTransactions =
         loop_txs (onFinalized_loop a bh (cursor s bh) bh (blocks s) (trackedTransactions s)),
       lastFinalizedBlock = Some bh\<rparr>,
      loop_out (onFinalized_loop a bh (cursor s bh) bh (blocks s) (trackedTransactions s)) @
      [Unpin (loop_unpin (onFinalized_loop a bh (cursor s bh) bh (blocks s)
                (trackedTransactions s)))])"
  by (simp add: onFinalized_def case_prod_unfold)

lemma visited_onFinalized:
  "visited (snd (onFinalized a s bh)) =
     loop_unpin (onFinalized_loop a bh (cursor s bh) bh (blocks s) (trackedTransactions s))"
  by (simp add: onFinalized_eq visited_append loop_visited)

lemma unpinned_onFinalized:
  "unpinned (snd (onFinalized a s bh)) = [visited (snd (onFinalized a s bh))]"
  unfolding visited_onFinalized
  by (simp add: onFinalized_eq unpinned_append unpinned_no_Unpin loop_no_Unpin)

lemma calls_for_onFinalized:
  "calls_for tx (snd (onFinalized a s bh)) =
     calls_for tx (loop_out (onFinalized_loop a bh (cursor s bh) bh (blocks s)
                              (trackedTransactions s)))"
  by (simp add: onFinalized_eq calls_for_def)

lemma onFinalized_follows_chain:
  assumes "parent_chain (blocks s) (bh # rest)"
    and "\<forall>b \<in> set rest. b \<noteq> [] \<and> Some b \<noteq> cursor s bh" and "distinct (bh # rest)"
  shows "\<exists>post. visited (snd (onFinalized a s bh)) = bh # rest @ post"
  unfolding visited_onFinalized using assms by (rule loop_follows_chain)

text \<open>
  A finalized event for the block at which a transaction is recorded invalid reports it done
  there, asking the provider for the body only.
\<close>

lemma invalid_done_at_event_block:
  assumes "map_of (trackedTransactions s) tx = Some ivs" and "B \<in> ivs"
    and "tx \<notin> set (getBody a B)"
  shows "OnTxDone tx (Invalid B) \<in> set (snd (onFinalized a s B)) \<and>
         (\<forall>b t. IsTxValid b t \<notin> set (snd (onFinalized a s B))) \<and>
         IsTxSuccessful B tx \<notin> set (snd (onFinalized a s B))"
proof -
  let ?r = "onFinalized_loop a B (cursor s B) B (blocks s) (trackedTransactions s)"
  have "OnTxDone tx (Invalid B) \<in> set (snd (finalize_block a B B (trackedTransactions s)))"
    using assms(1,3,2) by (rule finalize_block_invalid_done)
  then have d: "OnTxDone tx (Invalid B) \<in> set (loop_out ?r)"
    by (rule loop_out_first)
  have s: "IsTxSuccessful B tx \<notin> set (loop_out ?r)"
    using assms(3) by (auto dest: loop_out_set)
  show ?thesis
    using d s by (simp add: onFinalized_eq loop_no_IsTxValid)
qed

subsection \<open>Order of the sink calls\<close>

lemma sink_txs_append: "sink_txs (xs @ ys) = sink_txs xs @ sink_txs ys"
  by (induction xs rule: sink_txs.induct) simp_all

lemma subseq_sink_txs_concat:
  assumes "\<And>k. sink_txs (f k) = [] \<or> sink_txs (f k) = [k]"
  shows "subseq (sink_txs (concat (map f ks))) ks"
proof (induction ks)
  case Nil
  show ?case by simp
next
  case (Cons k ks)
  from assms [of k] show ?case
  proof
    assume "sink_txs (f k) = []"
    with Cons show ?thesis
      by (auto simp: sink_txs_append)
  next
    assume "sink_txs (f k) = [k]"
    with Cons show ?thesis
      by (simp add: sink_txs_append)
  qed
qed

text \<open>
  A new block, and one visited block of a finalization, call the sink in the order of the
  registry.
\<close>

lemma onNewBlock_arrival_order:
  "subseq (sink_txs (snd (onNewBlock a s bh p))) (map fst (trackedTransactions s))"
proof -
  have "sink_txs (snd (onNewBlock_tx a bh body k [])) = [] \<or>
        sink_txs (snd (onNewBlock_tx a bh body k [])) = [k]" for body k
    by (simp add: onNewBlock_tx_def)
  then show ?thesis
    unfolding onNewBlock_eq snd_conv forEach_onNewBlock_snd sink_txs.simps
    by (rule subseq_sink_txs_concat)
qed

lemma finalize_block_arrival_order:
  "subseq (sink_txs (snd (finalize_block a bh cur txs))) (map fst txs)"
proof -
  have "sink_txs (snd (onFinalized_tx a bh cur body k txs)) = [] \<or>
        sink_txs (snd (onFinalized_tx a bh cur body k txs)) = [k]" for body k
    by (simp add: onFinalized_tx_def)
  then show ?thesis
    unfolding finalize_block_snd sink_txs.simps
    by (rule subseq_sink_txs_concat)
qed

subsection \<open>The keys of the registry stay distinct\<close>

lemma distinct_keys_step:
  "distinct (map fst (trackedTransactions s)) \<Longrightarrow>
   distinct (map fst (trackedTransactions (fst (emidesejas a s e))))"
proof (cases e)
  case (NewBlock bh p)
  assume "distinct (map fst (trackedTransactions s))"
  with NewBlock show ?thesis
    by (simp add: onNewBlock_eq forEach_onNewBlock_keys)
next
  case (NewTransaction v)
  assume "distinct (map fst (trackedTransactions s))"
  with NewTransaction show ?thesis
    by (simp add: onNewTx_def distinct_update)
next
  case (Finalized bh)
  assume "distinct (map fst (trackedTransactions s))"
  with Finalized show ?thesis
    by (simp add: onFinalized_eq loop_txs_filter distinct_map_filter)
qed

lemma distinct_keys_run:
  "distinct (map fst (trackedTransactions s)) \<Longrightarrow>
   distinct (map fst (trackedTransactions (fst (run a s es))))"
proof (induction es arbitrary: s)
  case Nil
  then show ?case by simp
next
  case (Cons e es)
  from Cons.IH [OF distinct_keys_step [OF Cons.prems, of a e]] show ?case
    by (simp add: case_prod_unfold)
qed

lemma distinct_keys_reachable:
  "distinct (map fst (trackedTransactions (fst (run a init es))))"
  by (rule distinct_keys_run) (simp add: init_def)

section \<open>The claims\<close>

text \<open>
  C1. For every transaction, \<^verbatim>\<open>onTxDone\<close> is invoked at most once over a sequence of events.

  The handler does not do this. A transaction that is invalid at the finalized block stays
  in the registry, and the test of line 89 looks at the hash of the event, not at the block
  being visited, so the transaction is reported done at every block of the walk. Here the
  cursor is \<open>B0\<close>, the chain is \<open>B0\<close>, \<open>B1\<close>, \<open>B2\<close>, the transaction \<open>t\<close> is invalid at
  \<open>B1\<close> and \<open>B2\<close>, and the event for \<open>B2\<close> arrives without one for \<open>B1\<close>: \<open>t\<close> is
  reported done twice. It is also reported done twice when each of the two blocks gets its
  own finalized event.
\<close>

theorem done_emitted_twice:
  "dones ''t'' (snd (run provider_invalid init
      [Finalized ''B0'', NewTransaction ''t'', NewBlock ''B1'' ''B0'', NewBlock ''B2'' ''B1'',
       Finalized ''B2''])) =
   [Invalid ''B2'', Invalid ''B1''] \<and>
   dones ''t'' (snd (run provider_invalid init
      [Finalized ''B0'', NewTransaction ''t'', NewBlock ''B1'' ''B0'', Finalized ''B1'',
       NewBlock ''B2'' ''B1'', Finalized ''B2''])) =
   [Invalid ''B1'', Invalid ''B2'']"
  by code_simp

text \<open>
  C2. For every transaction, \<^verbatim>\<open>onTxSettled\<close> is invoked at most once: after a settled call,
  no later new block emits another one for the transaction.

  The handler does not do this either: a settled transaction stays in the registry and every
  new block examines it again. Here \<open>t\<close> is included in \<open>B1\<close> and, having been included, is
  no longer valid at the child \<open>B2\<close>: it is settled as valid at \<open>B1\<close> and then as invalid
  at \<open>B2\<close>.
\<close>

theorem settled_emitted_twice:
  "settles ''t'' (snd (run provider_included init
      [NewTransaction ''t'', NewBlock ''B1'' ''B0'', NewBlock ''B2'' ''B1''])) =
   [Valid ''B1'' True, Invalid ''B2'']"
  by code_simp


text \<open>
  C4. For every finalized event, \<^verbatim>\<open>unpin\<close> is called exactly once, and its argument is the
  list of the blocks the walk of that event visited: the newly finalized block and its
  ancestors back to, but excluding, the previous cursor.

  The event makes one \<^verbatim>\<open>unpin\<close> call, which is its last call, with the visited blocks in
  the order of the visits. The list starts with the finalized block, every block in it is
  followed by its parent in the index, no block after the first is the previous cursor,
  and the list ends only where \<open>walk_ends\<close> allows.
\<close>

theorem unpin_once_with_visited:
  "unpinned (snd (onFinalized a s bh)) = [visited (snd (onFinalized a s bh))] \<and>
   last (snd (onFinalized a s bh)) = Unpin (visited (snd (onFinalized a s bh))) \<and>
   hd (visited (snd (onFinalized a s bh))) = bh \<and>
   parent_chain (blocks s) (visited (snd (onFinalized a s bh))) \<and>
   (\<forall>b \<in> set (tl (visited (snd (onFinalized a s bh)))). Some b \<noteq> lastFinalizedBlock s) \<and>
   walk_ends (blocks s) (cursor s bh) (visited (snd (onFinalized a s bh)))"
proof -
  let ?r = "onFinalized_loop a bh (cursor s bh) bh (blocks s) (trackedTransactions s)"
  have excl: "Some b \<noteq> lastFinalizedBlock s" if "b \<in> set (tl (loop_unpin ?r))" for b
    using loop_excludes [OF that] by (auto simp: cursor_def split: option.splits)
  have "last (snd (onFinalized a s bh)) = Unpin (loop_unpin ?r)"
    by (simp add: onFinalized_eq)
  then show ?thesis
    unfolding unpinned_onFinalized visited_onFinalized
    using loop_unpin_hd [of a bh "cursor s bh" bh "blocks s" "trackedTransactions s"]
      loop_parent_chain [of "blocks s" a bh "cursor s bh" bh "trackedTransactions s"]
      loop_walk_ends [of "blocks s" "cursor s bh" a bh bh "trackedTransactions s"] excl
    by blast
qed

theorem unpin_once_with_visited_witness:
  "visited (snd (onFinalized provider_invalid invalid_at_B2 ''B2'')) = [''B2'', ''B1''] \<and>
   unpinned (snd (onFinalized provider_invalid invalid_at_B2 ''B2'')) = [[''B2'', ''B1'']] \<and>
   last (snd (onFinalized provider_invalid invalid_at_B2 ''B2'')) = Unpin [''B2'', ''B1''] \<and>
   parent_chain (blocks invalid_at_B2) [''B2'', ''B1''] \<and>
   Some ''B1'' \<noteq> lastFinalizedBlock invalid_at_B2 \<and>
   walk_ends (blocks invalid_at_B2) (cursor invalid_at_B2 ''B2'') [''B2'', ''B1'']"
proof -
  have v: "visited (snd (onFinalized provider_invalid invalid_at_B2 ''B2'')) = [''B2'', ''B1'']"
    by code_simp
  show ?thesis
    using unpin_once_with_visited [of provider_invalid invalid_at_B2 "''B2''"]
    unfolding v by simp
qed

text \<open>
  C5. A finalized event walks the parent chain from the finalized block in child-to-parent
  order and stops when the parent is the previous cursor, when the current block is not in
  the index (that block is still processed), or when no parent is known; with the chain
  \<open>B1\<close>, \<open>B2\<close>, \<open>B3\<close> pinned and no finalized event for \<open>B1\<close> and \<open>B2\<close>, the event
  for \<open>B3\<close> visits \<open>B3\<close>, \<open>B2\<close>, \<open>B1\<close> and unpins exactly these.

  The example fails when the parent of \<open>B1\<close> is a block that is neither the cursor nor in
  the index: by the rule of the first half, that block is visited and unpinned too. Here no
  finalized event has arrived before and the parent of \<open>B1\<close> is \<open>B0\<close>.
\<close>

theorem walk_goes_past_chain:
  "unpinned (snd (run provider_invalid init
      [NewBlock ''B1'' ''B0'', NewBlock ''B2'' ''B1'', NewBlock ''B3'' ''B2'',
       Finalized ''B3''])) =
   [[''B3'', ''B2'', ''B1'', ''B0'']]"
  by code_simp

text \<open>
  C5, amended. The blocks a finalized event visits start with the finalized block, each is
  followed by its parent in the index, and the walk ends at a block that is not in the index
  (any more), or whose parent is the empty string or the cursor. With \<open>B3\<close>, \<open>B2\<close>,
  \<open>B1\<close> in the index, each the child of the next, neither \<open>B1\<close> nor \<open>B2\<close> the cursor,
  and the parent of \<open>B1\<close> either the cursor or the empty string, the event for \<open>B3\<close>
  visits \<open>B3\<close>, \<open>B2\<close>, \<open>B1\<close> in this order and calls \<^verbatim>\<open>unpin\<close> once, with this list.
\<close>

theorem walk_child_to_parent:
  "hd (visited (snd (onFinalized a s bh))) = bh \<and>
   parent_chain (blocks s) (visited (snd (onFinalized a s bh))) \<and>
   walk_ends (blocks s) (cursor s bh) (visited (snd (onFinalized a s bh))) \<and>
   (map_of (blocks s) B3 = Some B2 \<and> map_of (blocks s) B2 = Some B1 \<and>
    map_of (blocks s) B1 = Some P \<and> (P = [] \<or> lastFinalizedBlock s = Some P) \<and>
    distinct [B1, B2, B3] \<and> B1 \<noteq> [] \<and> B2 \<noteq> [] \<and>
    lastFinalizedBlock s \<noteq> Some B1 \<and> lastFinalizedBlock s \<noteq> Some B2 \<longrightarrow>
    visited (snd (onFinalized a s B3)) = [B3, B2, B1] \<and>
    unpinned (snd (onFinalized a s B3)) = [[B3, B2, B1]])"
proof -
  let ?r = "onFinalized_loop a bh (cursor s bh) bh (blocks s) (trackedTransactions s)"
  have general: "hd (loop_unpin ?r) = bh \<and> parent_chain (blocks s) (loop_unpin ?r) \<and>
      walk_ends (blocks s) (cursor s bh) (loop_unpin ?r)"
    using loop_unpin_hd [of a bh "cursor s bh" bh "blocks s" "trackedTransactions s"]
      loop_parent_chain [of "blocks s" a bh "cursor s bh" bh "trackedTransactions s"]
      loop_walk_ends [of "blocks s" "cursor s bh" a bh bh "trackedTransactions s"]
    by blast
  have scenario: "loop_unpin (onFinalized_loop a B3 (cursor s B3) B3 (blocks s) txs) = [B3, B2, B1]"
    if "map_of (blocks s) B3 = Some B2" "map_of (blocks s) B2 = Some B1"
      "map_of (blocks s) B1 = Some P" "P = [] \<or> lastFinalizedBlock s = Some P"
      "distinct [B1, B2, B3]" "B1 \<noteq> []" "B2 \<noteq> []"
      "lastFinalizedBlock s \<noteq> Some B1" "lastFinalizedBlock s \<noteq> Some B2" for txs
  proof -
    have c: "Some B2 \<noteq> cursor s B3" "Some B1 \<noteq> cursor s B3"
      using that by (auto simp: cursor_def split: option.splits)
    have stop: "P = [] \<or> Some P = cursor s B3"
      using that by (auto simp: cursor_def)
    show ?thesis
      using that c stop
      apply (subst onFinalized_loop_unfold)
      apply simp
      apply (subst onFinalized_loop_unfold)
      apply (simp add: delete_conv')
      apply (subst onFinalized_loop_unfold)
      apply (auto simp add: delete_conv')
      done
  qed
  show ?thesis
    unfolding unpinned_onFinalized visited_onFinalized
    using general scenario by blast
qed

theorem walk_child_to_parent_witness:
  "map_of (blocks chain_of_three) ''B3'' = Some ''B2'' \<and>
   map_of (blocks chain_of_three) ''B2'' = Some ''B1'' \<and>
   map_of (blocks chain_of_three) ''B1'' = Some ''B0'' \<and>
   lastFinalizedBlock chain_of_three = Some ''B0'' \<and>
   visited (snd (onFinalized provider_invalid chain_of_three ''B3'')) = [''B3'', ''B2'', ''B1''] \<and>
   unpinned (snd (onFinalized provider_invalid chain_of_three ''B3'')) =
     [[''B3'', ''B2'', ''B1'']] \<and>
   parent_chain (blocks chain_of_three) [''B3'', ''B2'', ''B1''] \<and>
   walk_ends (blocks chain_of_three) (cursor chain_of_three ''B3'') [''B3'', ''B2'', ''B1'']"
proof -
  have h: "map_of (blocks chain_of_three) ''B3'' = Some ''B2''"
    "map_of (blocks chain_of_three) ''B2'' = Some ''B1''"
    "map_of (blocks chain_of_three) ''B1'' = Some ''B0''"
    "lastFinalizedBlock chain_of_three = Some ''B0''"
    by code_simp+
  note w = walk_child_to_parent [of provider_invalid chain_of_three "''B3''"
      "''B3''" "''B2''" "''B1''" "''B0''"]
  have v: "visited (snd (onFinalized provider_invalid chain_of_three ''B3'')) =
      [''B3'', ''B2'', ''B1'']"
    using w h by simp
  show ?thesis
    using w h unfolding v by simp
qed

text \<open>
  C6. Within one event, the sink calls for distinct transactions occur in the order in which
  the transactions were registered.

  A finalized event that visits more than one block does not do this: it reports block by
  block, child first. Here \<open>t1\<close> was registered before \<open>t2\<close>, \<open>B1\<close> contains \<open>t1\<close>
  and its child \<open>B2\<close> contains \<open>t2\<close>; the event for \<open>B2\<close> reports \<open>t2\<close> done, then
  \<open>t1\<close>. (A new block, and each visited block by itself, keep the order of the registry:
  \<open>onNewBlock_arrival_order\<close>, \<open>finalize_block_arrival_order\<close>.)
\<close>

theorem done_against_arrival_order:
  "map fst (trackedTransactions (fst (run provider_two_blocks init
      [Finalized ''B0'', NewTransaction ''t1'', NewTransaction ''t2'',
       NewBlock ''B1'' ''B0'', NewBlock ''B2'' ''B1'']))) = [''t1'', ''t2''] \<and>
   snd (emidesejas provider_two_blocks
      (fst (run provider_two_blocks init
         [Finalized ''B0'', NewTransaction ''t1'', NewTransaction ''t2'',
          NewBlock ''B1'' ''B0'', NewBlock ''B2'' ''B1'']))
      (Finalized ''B2'')) =
   [GetBody ''B2'', IsTxSuccessful ''B2'' ''t2'', OnTxDone ''t2'' (Valid ''B2'' True),
    GetBody ''B1'', IsTxSuccessful ''B1'' ''t1'', OnTxDone ''t1'' (Valid ''B1'' True),
    Unpin [''B2'', ''B1'']]"
  by code_simp

text \<open>
  C7. During the walk of a finalized event, take a visited block and a transaction that is
  still registered when the walk reaches it (it was registered when the event arrived and is
  in the body of no block visited before) and that is not in the body of that block. The
  event makes the done call with the invalid outcome at that block exactly when the
  recorded set of the transaction contains the block of the event; what the set holds
  otherwise, the visited block included, does not count.
\<close>

theorem invalid_done_iff_event_block:
  assumes "map_of (trackedTransactions s) tx = Some ivs"
    and "visited (snd (onFinalized a s bh)) = pre @ cur # post"
    and "\<forall>b \<in> set pre. tx \<notin> set (getBody a b)"
    and "tx \<notin> set (getBody a cur)"
  shows "OnTxDone tx (Invalid cur) \<in> set (snd (onFinalized a s bh)) \<longleftrightarrow> bh \<in> ivs"
proof
  assume "OnTxDone tx (Invalid cur) \<in> set (snd (onFinalized a s bh))"
  then have "OnTxDone tx (Invalid cur)
      \<in> set (loop_out (onFinalized_loop a bh (cursor s bh) bh (blocks s) (trackedTransactions s)))"
    by (simp add: onFinalized_eq)
  from loop_invalid_doneD [OF this] assms(1) show "bh \<in> ivs"
    by simp
next
  assume "bh \<in> ivs"
  from loop_invalid_done_at [OF assms(1) this assms(2) [unfolded visited_onFinalized] assms(3,4)]
  show "OnTxDone tx (Invalid cur) \<in> set (snd (onFinalized a s bh))"
    by (simp add: onFinalized_eq)
qed

theorem invalid_done_iff_event_block_witness:
  "map_of (trackedTransactions invalid_only_at_B1) ''t'' = Some {''B1''} \<and>
   map_of (trackedTransactions invalid_only_at_B2) ''t'' = Some {''B2''} \<and>
   visited (snd (onFinalized provider_invalid_B1 invalid_only_at_B1 ''B2'')) = [''B2'', ''B1''] \<and>
   visited (snd (onFinalized provider_invalid_B2 invalid_only_at_B2 ''B2'')) = [''B2'', ''B1''] \<and>
   OnTxDone ''t'' (Invalid ''B1'')
     \<notin> set (snd (onFinalized provider_invalid_B1 invalid_only_at_B1 ''B2'')) \<and>
   OnTxDone ''t'' (Invalid ''B1'')
     \<in> set (snd (onFinalized provider_invalid_B2 invalid_only_at_B2 ''B2''))"
proof -
  have r1: "map_of (trackedTransactions invalid_only_at_B1) ''t'' = Some {''B1''}"
    and r2: "map_of (trackedTransactions invalid_only_at_B2) ''t'' = Some {''B2''}"
    by code_simp+
  have v1: "visited (snd (onFinalized provider_invalid_B1 invalid_only_at_B1 ''B2'')) =
      [''B2''] @ ''B1'' # []"
    and v2: "visited (snd (onFinalized provider_invalid_B2 invalid_only_at_B2 ''B2'')) =
      [''B2''] @ ''B1'' # []"
    by code_simp+
  have b1: "\<forall>b \<in> set [''B2'']. ''t'' \<notin> set (getBody provider_invalid_B1 b)"
    "''t'' \<notin> set (getBody provider_invalid_B1 ''B1'')"
    and b2: "\<forall>b \<in> set [''B2'']. ''t'' \<notin> set (getBody provider_invalid_B2 b)"
    "''t'' \<notin> set (getBody provider_invalid_B2 ''B1'')"
    by (simp_all add: provider_invalid_B1_def provider_invalid_B2_def)
  show ?thesis
    using r1 r2 v1 v2 invalid_done_iff_event_block [OF r1 v1 b1]
      invalid_done_iff_event_block [OF r2 v2 b2]
    by simp
qed

text \<open>
  C8. On a new block, every registered transaction gets exactly one of three treatments. If
  it is in the body of the block: one \<^verbatim>\<open>isTxSuccessful\<close> query and the settled call with the
  valid outcome and the answer. Otherwise, if \<^verbatim>\<open>isTxValid\<close> is false at the block: the
  settled call with the invalid outcome, and the block joins the recorded set of the
  transaction. Otherwise no sink call, and the recorded set stays as it is. So a new block
  makes at most one settled call for a transaction. The order of the registry does not
  change. The keys of the registry are distinct, as those of a \<^verbatim>\<open>Map\<close> are, in every state
  the handler reaches (\<open>distinct_keys_reachable\<close>).
\<close>

theorem onNewBlock_outcome:
  assumes "distinct (map fst (trackedTransactions s))"
    and "map_of (trackedTransactions s) tx = Some ivs"
  shows "calls_for tx (snd (onNewBlock a s bh p)) =
           (if tx \<in> set (getBody a bh)
            then [IsTxSuccessful bh tx, OnTxSettled tx (Valid bh (isTxSuccessful a bh tx))]
            else if isTxValid a bh tx then [IsTxValid bh tx]
            else [IsTxValid bh tx, OnTxSettled tx (Invalid bh)]) \<and>
         map_of (trackedTransactions (fst (onNewBlock a s bh p))) tx =
           Some (if tx \<in> set (getBody a bh) \<or> isTxValid a bh tx then ivs else insert bh ivs) \<and>
         map fst (trackedTransactions (fst (onNewBlock a s bh p))) =
           map fst (trackedTransactions s)"
proof -
  let ?body = "set (getBody a bh)"
  let ?ks = "map fst (trackedTransactions s)"
  have mem: "tx \<in> set ?ks"
    using assms(2) by (auto dest: map_of_SomeD intro: rev_image_eqI)
  have out: "snd (onNewBlock a s bh p) =
      GetBody bh # concat (map (\<lambda>k. snd (onNewBlock_tx a bh ?body k [])) ?ks)"
    by (simp add: onNewBlock_eq forEach_onNewBlock_snd)
  have "calls_for tx (snd (onNewBlock a s bh p)) =
      calls_for tx (concat (map (\<lambda>k. snd (onNewBlock_tx a bh ?body k [])) ?ks))"
    unfolding out by (simp add: calls_for_def)
  also have "\<dots> = snd (onNewBlock_tx a bh ?body tx [])"
    using calls_for_concat [OF assms(1), of "\<lambda>k. snd (onNewBlock_tx a bh ?body k [])" tx]
      onNewBlock_tx_own mem by simp
  finally have calls: "calls_for tx (snd (onNewBlock a s bh p)) =
      snd (onNewBlock_tx a bh ?body tx [])" .
  have reg: "trackedTransactions (fst (onNewBlock a s bh p)) =
      fst (forEach (onNewBlock_tx a bh ?body) ?ks (trackedTransactions s))"
    by (simp add: onNewBlock_eq)
  show ?thesis
    unfolding calls reg forEach_onNewBlock_map_of forEach_onNewBlock_keys
    using mem assms(2) by (simp add: onNewBlock_tx_def)
qed

theorem onNewBlock_outcome_witness:
  "distinct (map fst (trackedTransactions invalid_at_B1)) \<and>
   map_of (trackedTransactions invalid_at_B1) ''t'' = Some {''B1''} \<and>
   calls_for ''t'' (snd (onNewBlock provider_invalid invalid_at_B1 ''B2'' ''B1'')) =
     [IsTxValid ''B2'' ''t'', OnTxSettled ''t'' (Invalid ''B2'')] \<and>
   map_of (trackedTransactions (fst (onNewBlock provider_invalid invalid_at_B1 ''B2'' ''B1'')))
     ''t'' = Some {''B2'', ''B1''} \<and>
   map fst (trackedTransactions (fst (onNewBlock provider_invalid invalid_at_B1 ''B2'' ''B1''))) =
     [''t'']"
proof -
  have h1: "distinct (map fst (trackedTransactions invalid_at_B1))"
    by code_simp
  have h2: "map_of (trackedTransactions invalid_at_B1) ''t'' = Some {''B1''}"
    by code_simp
  have k: "map fst (trackedTransactions invalid_at_B1) = [''t'']"
    by code_simp
  show ?thesis
    using h1 h2 onNewBlock_outcome [OF h1 h2, of provider_invalid "''B2''" "''B1''"]
    unfolding k by (simp add: provider_invalid_def)
qed

text \<open>
  C9. During the walk of a finalized event, take a visited block (the block of the event or
  an ancestor) whose body contains a transaction that is still registered when the walk
  reaches it. The event makes the done call with the valid outcome at that block, with the
  answer of \<^verbatim>\<open>isTxSuccessful\<close> for that block. That call is the last call of the event about
  the transaction, which is removed with it: before it come only the invalid done calls at
  the blocks visited earlier (if the block of the event is in the recorded set) and the one
  \<^verbatim>\<open>isTxSuccessful\<close> query, and the transaction is not in the registry after the event.
  Blocks linked to the block of the event by parents in the index are visited
  (\<open>onFinalized_follows_chain\<close>).
\<close>

theorem valid_done_and_removed:
  assumes "distinct (map fst (trackedTransactions s))"
    and "map_of (trackedTransactions s) tx = Some ivs"
    and "visited (snd (onFinalized a s bh)) = pre @ cur # post"
    and "\<forall>b \<in> set pre. tx \<notin> set (getBody a b)"
    and "tx \<in> set (getBody a cur)"
  shows "OnTxDone tx (Valid cur (isTxSuccessful a cur tx)) \<in> set (snd (onFinalized a s bh)) \<and>
         calls_for tx (snd (onFinalized a s bh)) =
           (if bh \<in> ivs then map (\<lambda>b. OnTxDone tx (Invalid b)) pre else []) @
           [IsTxSuccessful cur tx, OnTxDone tx (Valid cur (isTxSuccessful a cur tx))] \<and>
         tx \<notin> fst ` set (trackedTransactions (fst (onFinalized a s bh)))"
proof -
  let ?r = "onFinalized_loop a bh (cursor s bh) bh (blocks s) (trackedTransactions s)"
  note u = assms(3) [unfolded visited_onFinalized]
  have calls: "calls_for tx (snd (onFinalized a s bh)) =
      (if bh \<in> ivs then map (\<lambda>b. OnTxDone tx (Invalid b)) pre else []) @
      [IsTxSuccessful cur tx, OnTxDone tx (Valid cur (isTxSuccessful a cur tx))]"
    unfolding calls_for_onFinalized
    by (rule loop_calls_for_valid [OF assms(1,2) u assms(4,5)])
  have "OnTxDone tx (Valid cur (isTxSuccessful a cur tx)) \<in> set (calls_for tx (snd (onFinalized a s bh)))"
    unfolding calls by simp
  then have fires: "OnTxDone tx (Valid cur (isTxSuccessful a cur tx)) \<in> set (snd (onFinalized a s bh))"
    by (simp add: calls_for_def)
  have "cur \<in> set (loop_unpin ?r)"
    unfolding u by simp
  then have gone: "tx \<notin> fst ` set (trackedTransactions (fst (onFinalized a s bh)))"
    using assms(5) by (auto simp: onFinalized_eq loop_txs_filter)
  from fires calls gone show ?thesis
    by blast
qed

theorem valid_done_and_removed_witness:
  "distinct (map fst (trackedTransactions two_settled)) \<and>
   map_of (trackedTransactions two_settled) ''t1'' = Some {} \<and>
   visited (snd (onFinalized provider_two_blocks two_settled ''B2'')) = [''B2'', ''B1''] \<and>
   ''t1'' \<notin> set (getBody provider_two_blocks ''B2'') \<and>
   ''t1'' \<in> set (getBody provider_two_blocks ''B1'') \<and>
   OnTxDone ''t1'' (Valid ''B1'' True)
     \<in> set (snd (onFinalized provider_two_blocks two_settled ''B2'')) \<and>
   calls_for ''t1'' (snd (onFinalized provider_two_blocks two_settled ''B2'')) =
     [IsTxSuccessful ''B1'' ''t1'', OnTxDone ''t1'' (Valid ''B1'' True)] \<and>
   ''t1'' \<notin> fst ` set (trackedTransactions (fst (onFinalized provider_two_blocks two_settled ''B2'')))"
proof -
  have d: "distinct (map fst (trackedTransactions two_settled))"
    unfolding two_settled_def by (rule distinct_keys_reachable)
  have r: "map_of (trackedTransactions two_settled) ''t1'' = Some {}"
    by code_simp
  have v: "visited (snd (onFinalized provider_two_blocks two_settled ''B2'')) =
      [''B2''] @ ''B1'' # []"
    by code_simp
  have b: "\<forall>b \<in> set [''B2'']. ''t1'' \<notin> set (getBody provider_two_blocks b)"
    "''t1'' \<in> set (getBody provider_two_blocks ''B1'')"
    by (simp_all add: provider_two_blocks_def)
  show ?thesis
    using d r v b valid_done_and_removed [OF d r v b]
    by (simp add: provider_two_blocks_def)
qed

text \<open>
  C10. A new-transaction event for a transaction that is already registered empties the
  recorded set of that transaction and leaves it at its place in the order of the registry;
  the other entries, the index and the cursor do not change.
\<close>

theorem onNewTx_registered:
  assumes "tx \<in> fst ` set (trackedTransactions s)"
  shows "map fst (trackedTransactions (onNewTx s tx)) = map fst (trackedTransactions s) \<and>
         map_of (trackedTransactions (onNewTx s tx)) tx = Some {} \<and>
         (\<forall>k. k \<noteq> tx \<longrightarrow> map_of (trackedTransactions (onNewTx s tx)) k =
                              map_of (trackedTransactions s) k) \<and>
         blocks (onNewTx s tx) = blocks s \<and>
         lastFinalizedBlock (onNewTx s tx) = lastFinalizedBlock s"
  using assms by (simp add: onNewTx_def update_keys update_conv')

theorem onNewTx_registered_witness:
  "''t1'' \<in> fst ` set (trackedTransactions two_invalid) \<and>
   trackedTransactions two_invalid = [(''t1'', {''B1''}), (''t2'', {''B1''})] \<and>
   map fst (trackedTransactions (onNewTx two_invalid ''t1'')) = [''t1'', ''t2''] \<and>
   map_of (trackedTransactions (onNewTx two_invalid ''t1'')) ''t1'' = Some {} \<and>
   map_of (trackedTransactions (onNewTx two_invalid ''t1'')) ''t2'' = Some {''B1''}"
proof -
  have r: "trackedTransactions two_invalid = [(''t1'', {''B1''}), (''t2'', {''B1''})]"
    by (simp add: two_invalid_def init_def provider_invalid_def onNewTx_def onNewBlock_eq
        onNewBlock_tx_def forEach_Cons)
  have h: "''t1'' \<in> fst ` set (trackedTransactions two_invalid)"
    unfolding r by simp
  show ?thesis
    using h r onNewTx_registered [OF h] by simp
qed

end
